theory Spec2Isabelle
  imports Main
begin

section \<open>Divide-and-conquer minimum/maximum (test-3/tsk1.py)\<close>

text \<open>
  The source is the Python function
  \<^verbatim>\<open>
  def find_min_max(arr, low, high):
      if low == high:
          return arr[low], arr[low]
      if high == low + 1:
          if arr[low] < arr[high]:
              return arr[low], arr[high]
          else:
              return arr[high], arr[low]
      mid = (low + high) // 2
      left_min, left_max = find_min_max(arr, low, mid)
      right_min, right_max = find_min_max(arr, mid + 1, high)
      return min(left_min, right_min), max(left_max, right_max)
  \<close>
  The list \<open>arr\<close> is a HOL list over a linear order, the indices \<open>low\<close> and
  \<open>high\<close> are Python's unbounded integers (\<open>int\<close>), and every exception the
  interpreter can raise on the way is a value of the type \<open>error\<close>.
\<close>

subsection \<open>Exceptions\<close>

text \<open>
  \<open>IndexError\<close> is raised by a list subscript out of range, \<open>RecursionError\<close> by
  the interpreter when the nesting of calls exceeds its recursion limit.
  \<open>InvalidRangeError\<close> and \<open>EmptySequenceError\<close> are the two exception names of the
  specification; no statement of the source raises them.
\<close>

datatype error = IndexError | RecursionError | InvalidRangeError | EmptySequenceError

subsection \<open>List subscript, \<open>min\<close> and \<open>max\<close> of Python\<close>

text \<open>
  \<open>arr[i]\<close>: an index below zero is counted from the end of the list; what then lies
  outside \<open>0 .. len(arr) - 1\<close> raises \<open>IndexError\<close>.
\<close>

definition getitem :: "'a list \<Rightarrow> int \<Rightarrow> error + 'a" where
  "getitem arr i =
     (if 0 \<le> i \<and> i < int (length arr) then Inr (arr ! nat i)
      else if i < 0 \<and> 0 \<le> i + int (length arr) then Inr (arr ! nat (i + int (length arr)))
      else Inl IndexError)"

text \<open>
  The built-in \<open>min(a, b)\<close> keeps \<open>a\<close> unless \<open>b < a\<close>; \<open>max(a, b)\<close> keeps \<open>a\<close>
  unless \<open>b > a\<close>. Each costs one comparison of elements.
\<close>

definition py_min :: "'a::linorder \<Rightarrow> 'a \<Rightarrow> 'a" where
  "py_min a b = (if b < a then b else a)"

definition py_max :: "'a::linorder \<Rightarrow> 'a \<Rightarrow> 'a" where
  "py_max a b = (if b > a then b else a)"

subsection \<open>The function\<close>

text \<open>
  The first argument is the number of nested calls of \<open>find_min_max\<close> the interpreter
  still allows (the recursion limit less the depth of the caller). A call that would
  exceed it raises \<open>RecursionError\<close>; an exception raised in a recursive call leaves
  the caller at once, the left call being evaluated before the right one.
\<close>

fun find_min_max :: "nat \<Rightarrow> 'a::linorder list \<Rightarrow> int \<Rightarrow> int \<Rightarrow> error + ('a \<times> 'a)" where
  "find_min_max 0 arr low high = Inl RecursionError"
| "find_min_max (Suc depth) arr low high =
     (if low = high then
        (case getitem arr low of
           Inl e \<Rightarrow> Inl e
         | Inr x \<Rightarrow> Inr (x, x))
      else if high = low + 1 then
        (case getitem arr low of
           Inl e \<Rightarrow> Inl e
         | Inr a \<Rightarrow>
            (case getitem arr high of
               Inl e \<Rightarrow> Inl e
             | Inr b \<Rightarrow> if a < b then Inr (a, b) else Inr (b, a)))
      else
        (let mid = (low + high) div 2 in
         case find_min_max depth arr low mid of
           Inl e \<Rightarrow> Inl e
         | Inr (left_min, left_max) \<Rightarrow>
            (case find_min_max depth arr (mid + 1) high of
               Inl e \<Rightarrow> Inl e
             | Inr (right_min, right_max) \<Rightarrow>
                 Inr (py_min left_min right_min, py_max left_max right_max))))"

subsection \<open>The same function, observed\<close>

text \<open>
  \<open>find_min_max_probe\<close> is \<open>find_min_max\<close> statement by statement, and returns with the
  result what an instrumented run would record: the number of comparisons between
  elements (the \<open><\<close> of the two-element case, one for \<open>min\<close> and one for \<open>max\<close>) and
  the indices at which \<open>arr\<close> was subscripted, in the order of evaluation. A run that
  raises keeps what was recorded up to the exception.
\<close>

fun find_min_max_probe ::
  "nat \<Rightarrow> 'a::linorder list \<Rightarrow> int \<Rightarrow> int \<Rightarrow> (error + ('a \<times> 'a)) \<times> nat \<times> int list" where
  "find_min_max_probe 0 arr low high = (Inl RecursionError, 0, [])"
| "find_min_max_probe (Suc depth) arr low high =
     (if low = high then
        (case getitem arr low of
           Inl e \<Rightarrow> (Inl e, 0, [low])
         | Inr x \<Rightarrow> (Inr (x, x), 0, [low, low]))
      else if high = low + 1 then
        (case getitem arr low of
           Inl e \<Rightarrow> (Inl e, 0, [low])
         | Inr a \<Rightarrow>
            (case getitem arr high of
               Inl e \<Rightarrow> (Inl e, 0, [low, high])
             | Inr b \<Rightarrow>
                 if a < b then (Inr (a, b), 1, [low, high, low, high])
                 else (Inr (b, a), 1, [low, high, high, low])))
      else
        (let mid = (low + high) div 2 in
         case find_min_max_probe depth arr low mid of
           (Inl e, c1, r1) \<Rightarrow> (Inl e, c1, r1)
         | (Inr (left_min, left_max), c1, r1) \<Rightarrow>
            (case find_min_max_probe depth arr (mid + 1) high of
               (Inl e, c2, r2) \<Rightarrow> (Inl e, c1 + c2, r1 @ r2)
             | (Inr (right_min, right_max), c2, r2) \<Rightarrow>
                 (Inr (py_min left_min right_min, py_max left_max right_max),
                  c1 + c2 + 2, r1 @ r2))))"

subsection \<open>The sub-range of a sequence\<close>

text \<open>
  For \<open>0 \<le> low\<close> the elements at the indices \<open>low, \<dots>, high\<close> are Python's
  \<open>arr[low : high + 1]\<close>.
\<close>

definition slice :: "'a list \<Rightarrow> int \<Rightarrow> int \<Rightarrow> 'a list" where
  "slice arr low high = take (nat (high + 1 - low)) (drop (nat low) arr)"

section \<open>Basic facts\<close>

lemma py_min_eq: "py_min a b = min a b"
  by (auto simp: py_min_def min_def)

lemma py_max_eq: "py_max a b = max a b"
  by (auto simp: py_max_def max_def)

lemma mid_bounds: "low + 1 < high \<Longrightarrow> low \<le> (low + high) div 2 \<and> (low + high) div 2 < high"
  for low high :: int
  by presburger

lemma mid_fuel:
  fixes low high :: int
  assumes "low + 1 < high" "high - low + 1 \<le> 2 ^ Suc k"
  shows "(low + high) div 2 - low + 1 \<le> 2 ^ k" "high - ((low + high) div 2 + 1) + 1 \<le> 2 ^ k" "1 \<le> k"
proof -
  define p :: int where "p = 2 ^ k"
  have "high - low + 1 \<le> 2 * p" using assms by (simp add: p_def)
  then show "(low + high) div 2 - low + 1 \<le> 2 ^ k" "high - ((low + high) div 2 + 1) + 1 \<le> 2 ^ k"
    unfolding p_def[symmetric] by presburger+
  show "1 \<le> k"
  proof (rule ccontr)
    assume "\<not> 1 \<le> k"
    then have "k = 0" by simp
    with assms show False by simp
  qed
qed

lemma getitem_in_range:
  "- int (length arr) \<le> i \<Longrightarrow> i < int (length arr) \<Longrightarrow> \<exists>x. getitem arr i = Inr x"
  by (simp add: getitem_def)

lemma getitem_nonneg: "0 \<le> i \<Longrightarrow> i < int (length arr) \<Longrightarrow> getitem arr i = Inr (arr ! nat i)"
  by (simp add: getitem_def)

lemma getitem_error: "getitem arr i = Inl e \<Longrightarrow> e = IndexError \<and> (i < - int (length arr) \<or> int (length arr) \<le> i)"
  by (auto simp: getitem_def split: if_splits)

lemma find_min_max_extrema:
  fixes arr :: "'a::linorder list"
  assumes "low \<le> high" "- int (length arr) \<le> low" "high < int (length arr)"
    and "1 \<le> k" "high - low + 1 \<le> 2 ^ k"
  shows "find_min_max k arr low high =
           Inr (Min ((\<lambda>i. projr (getitem arr i)) ` {low..high}),
                Max ((\<lambda>i. projr (getitem arr i)) ` {low..high}))"
  using assms
proof (induction k arbitrary: low high)
  case 0
  then show ?case by simp
next
  case (Suc k)
  let ?g = "\<lambda>i. projr (getitem arr i)"
  have g: "\<exists>x. getitem arr i = Inr x" if "low \<le> i" "i \<le> high" for i
    using getitem_in_range[of arr i] that Suc.prems by auto
  show ?case
  proof (cases "low = high")
    case True
    then show ?thesis using g[of low] by auto
  next
    case ne: False
    show ?thesis
    proof (cases "high = low + 1")
      case True
      have s: "{low..low + 1} = {low, low + 1}" by auto
      show ?thesis using True g[of low] g[of "low + 1"]
        by (auto simp: s min_def max_def)
    next
      case False
      let ?mid = "(low + high) div 2"
      have lt: "low + 1 < high" using ne False Suc.prems by linarith
      note mb = mid_bounds[OF lt]
      note mf = mid_fuel[OF lt Suc.prems(5)]
      have L: "find_min_max k arr low ?mid = Inr (Min (?g ` {low..?mid}), Max (?g ` {low..?mid}))"
        using Suc.prems mb mf by (intro Suc.IH) auto
      have R: "find_min_max k arr (?mid + 1) high = Inr (Min (?g ` {?mid + 1..high}), Max (?g ` {?mid + 1..high}))"
        using Suc.prems mb mf by (intro Suc.IH) auto
      have un: "{low..high} = {low..?mid} \<union> {?mid + 1..high}" using mb by auto
      have "Min (?g ` {low..high}) = min (Min (?g ` {low..?mid})) (Min (?g ` {?mid + 1..high}))"
        unfolding un image_Un using mb by (intro Min_Un) auto
      moreover have "Max (?g ` {low..high}) = max (Max (?g ` {low..?mid})) (Max (?g ` {?mid + 1..high}))"
        unfolding un image_Un using mb by (intro Max_Un) auto
      ultimately show ?thesis using ne False L R
        by (simp add: py_min_eq py_max_eq Let_def)
    qed
  qed
qed

lemma set_slice:
  assumes "0 \<le> low" "high < int (length arr)"
  shows "set (slice arr low high) = (\<lambda>i. arr ! nat i) ` {low..high}"
proof -
  let ?n = "nat (high + 1 - low)"
  have len: "length (slice arr low high) = ?n"
    using assms by (auto simp: slice_def)
  have nth: "slice arr low high ! i = arr ! (nat low + i)" if "i < ?n" for i
    using that assms by (simp add: slice_def)
  show ?thesis
  proof (intro set_eqI iffI)
    fix x
    assume "x \<in> set (slice arr low high)"
    then obtain i where i: "i < ?n" "x = slice arr low high ! i"
      by (auto simp: in_set_conv_nth len)
    have "x = arr ! nat (low + int i)"
      using i nth[of i] assms by (simp add: nat_add_distrib)
    moreover have "low + int i \<in> {low..high}"
      using i by auto
    ultimately show "x \<in> (\<lambda>i. arr ! nat i) ` {low..high}"
      by blast
  next
    fix x
    assume "x \<in> (\<lambda>i. arr ! nat i) ` {low..high}"
    then obtain j where j: "low \<le> j" "j \<le> high" "x = arr ! nat j"
      by auto
    have lt: "nat (j - low) < ?n"
      using j by auto
    have "nat low + nat (j - low) = nat j"
      using j assms by auto
    then have "x = slice arr low high ! nat (j - low)"
      using nth[OF lt] j by simp
    then show "x \<in> set (slice arr low high)"
      using lt len by (metis nth_mem)
  qed
qed

lemma image_getitem_slice:
  assumes "0 \<le> low" "high < int (length arr)"
  shows "(\<lambda>i. projr (getitem arr i)) ` {low..high} = set (slice arr low high)"
proof -
  have "(\<lambda>i. projr (getitem arr i)) ` {low..high} = (\<lambda>i. arr ! nat i) ` {low..high}"
    using assms by (intro image_cong) (auto simp: getitem_nonneg)
  then show ?thesis
    by (simp add: set_slice[OF assms])
qed

lemma probe_result: "fst (find_min_max_probe k arr low high) = find_min_max k arr low high"
proof (induction k arbitrary: low high)
  case 0
  show ?case by simp
next
  case (Suc k)
  let ?mid = "(low + high) div 2"
  have L: "fst (find_min_max_probe k arr low ?mid) = find_min_max k arr low ?mid"
    and R: "fst (find_min_max_probe k arr (?mid + 1) high) = find_min_max k arr (?mid + 1) high"
    by (rule Suc.IH)+
  show ?case
    using L R by (auto simp: Let_def split: sum.splits prod.splits)
qed

lemma probe_reads: "low \<le> high \<Longrightarrow> set (snd (snd (find_min_max_probe k arr low high))) \<subseteq> {low..high}"
proof (induction k arbitrary: low high)
  case 0
  show ?case by simp
next
  case (Suc k)
  let ?mid = "(low + high) div 2"
  show ?case
  proof (cases "low + 1 < high")
    case True
    note mb = mid_bounds[OF True]
    have L: "set (snd (snd (find_min_max_probe k arr low ?mid))) \<subseteq> {low..?mid}"
      and R: "set (snd (snd (find_min_max_probe k arr (?mid + 1) high))) \<subseteq> {?mid + 1..high}"
      using mb by (auto intro!: Suc.IH)
    have "{low..?mid} \<subseteq> {low..high}" "{?mid + 1..high} \<subseteq> {low..high}"
      using mb by auto
    with L R have L': "set (snd (snd (find_min_max_probe k arr low ?mid))) \<subseteq> {low..high}"
      and R': "set (snd (snd (find_min_max_probe k arr (?mid + 1) high))) \<subseteq> {low..high}"
      by blast+
    show ?thesis
      using True L' R' by (auto simp: Let_def split: sum.splits prod.splits)
  next
    case False
    with Suc.prems show ?thesis
      by (auto split: sum.splits)
  qed
qed

section \<open>Exceptions and the recursion budget\<close>

lemma find_min_max_inverted: "high < low \<Longrightarrow> find_min_max k arr low high = Inl RecursionError"
proof (induction k arbitrary: low high)
  case 0
  show ?case by simp
next
  case (Suc k)
  let ?mid = "(low + high) div 2"
  have "?mid < low" using Suc.prems by presburger
  then have "find_min_max k arr low ?mid = Inl RecursionError"
    by (rule Suc.IH)
  then show ?case
    using Suc.prems by (simp add: Let_def)
qed

lemma find_min_max_shallow:
  "low \<le> high \<Longrightarrow> 2 ^ k < high - low + 1 \<Longrightarrow> find_min_max k arr low high = Inl RecursionError"
proof (induction k arbitrary: low high)
  case 0
  show ?case by simp
next
  case (Suc k)
  let ?mid = "(low + high) div 2"
  define p :: int where "p = 2 ^ k"
  have p: "1 \<le> p" "2 * p < high - low + 1"
    using Suc.prems by (simp_all add: p_def)
  then have "low \<le> ?mid" "p < ?mid - low + 1"
    by presburger+
  then have "find_min_max k arr low ?mid = Inl RecursionError"
    unfolding p_def by (intro Suc.IH)
  moreover have "low \<noteq> high" "high \<noteq> low + 1"
    using p by auto
  ultimately show ?case
    by (simp add: Let_def)
qed

lemma find_min_max_errors:
  "find_min_max k arr low high = Inl e \<Longrightarrow> e = IndexError \<or> e = RecursionError"
proof (induction k arbitrary: low high e)
  case 0
  then show ?case by simp
next
  case (Suc k)
  then show ?case
    by (auto simp: Let_def split: if_splits sum.splits prod.splits dest: getitem_error)
qed

lemma find_min_max_Inr_range:
  "find_min_max k arr low high = Inr r \<Longrightarrow>
     low \<le> high \<and> - int (length arr) \<le> low \<and> high < int (length arr)"
proof (induction k arbitrary: low high r)
  case 0
  then show ?case by simp
next
  case (Suc k)
  let ?mid = "(low + high) div 2"
  show ?case
  proof (cases "low = high \<or> high = low + 1")
    case True
    with Suc.prems show ?thesis
      by (auto simp: getitem_def split: if_splits sum.splits)
  next
    case False
    with Suc.prems obtain l r' where "find_min_max k arr low ?mid = Inr l"
      "find_min_max k arr (?mid + 1) high = Inr r'"
      by (auto simp: Let_def split: sum.splits prod.splits)
    then have "low \<le> ?mid \<and> - int (length arr) \<le> low" "?mid + 1 \<le> high \<and> high < int (length arr)"
      using Suc.IH by blast+
    then show ?thesis by linarith
  qed
qed

lemma find_min_max_deep_enough:
  "low \<le> high \<Longrightarrow> 1 \<le> k \<Longrightarrow> high - low + 1 \<le> 2 ^ k \<Longrightarrow>
     find_min_max k arr low high \<noteq> Inl RecursionError"
proof (induction k arbitrary: low high)
  case 0
  then show ?case by simp
next
  case (Suc k)
  let ?mid = "(low + high) div 2"
  show ?case
  proof (cases "low + 1 < high")
    case True
    note mb = mid_bounds[OF True]
    note mf = mid_fuel[OF True Suc.prems(3)]
    have L: "find_min_max k arr low ?mid \<noteq> Inl RecursionError"
      using mb mf by (intro Suc.IH) auto
    have R: "find_min_max k arr (?mid + 1) high \<noteq> Inl RecursionError"
      using mb mf by (intro Suc.IH) auto
    show ?thesis
      using True L R by (auto simp: Let_def split: sum.splits prod.splits)
  next
    case False
    then show ?thesis
      using Suc.prems by (auto split: sum.splits dest: getitem_error)
  qed
qed

lemma find_min_max_out_of_bounds:
  assumes "low \<le> high" "low < - int (length arr) \<or> int (length arr) \<le> high"
    and "1 \<le> k" "high - low + 1 \<le> 2 ^ k"
  shows "find_min_max k arr low high = Inl IndexError"
proof (cases "find_min_max k arr low high")
  case (Inl e)
  then show ?thesis
    using find_min_max_errors[OF Inl] find_min_max_deep_enough[OF assms(1,3,4), of arr] by auto
next
  case (Inr r)
  then show ?thesis
    using find_min_max_Inr_range[OF Inr] assms(2) by auto
qed

lemma find_min_max_no_index_error:
  "low \<le> high \<Longrightarrow> - int (length arr) \<le> low \<Longrightarrow> high < int (length arr) \<Longrightarrow>
     find_min_max k arr low high \<noteq> Inl IndexError"
proof (induction k arbitrary: low high)
  case 0
  show ?case by simp
next
  case (Suc k)
  let ?mid = "(low + high) div 2"
  show ?case
  proof (cases "low + 1 < high")
    case True
    note mb = mid_bounds[OF True]
    have L: "find_min_max k arr low ?mid \<noteq> Inl IndexError"
      using mb Suc.prems by (intro Suc.IH) auto
    have R: "find_min_max k arr (?mid + 1) high \<noteq> Inl IndexError"
      using mb Suc.prems by (intro Suc.IH) auto
    show ?thesis
      using True L R by (auto simp: Let_def split: sum.splits prod.splits)
  next
    case False
    then have "low = high \<or> high = low + 1"
      using Suc.prems(1) by linarith
    moreover have "\<exists>x. getitem arr low = Inr x" "\<exists>x. getitem arr high = Inr x"
      using Suc.prems by (auto intro: getitem_in_range)
    ultimately show ?thesis
      by (auto split: if_splits)
  qed
qed

lemma find_min_max_returns:
  fixes arr :: "'a::linorder list"
  assumes "low \<le> high" "- int (length arr) \<le> low" "high < int (length arr)"
    and "1 \<le> k" "high - low + 1 \<le> 2 ^ k"
  shows "\<exists>r. find_min_max k arr low high = Inr r"
  using find_min_max_extrema[OF assms] by blast

section \<open>Counting comparisons\<close>

lemma half_of_power:
  fixes low high :: int
  assumes "high - low + 1 = 2 ^ j" "low + 1 < high"
  shows "\<exists>i. 1 \<le> i \<and> (low + high) div 2 - low + 1 = 2 ^ i \<and> high - ((low + high) div 2 + 1) + 1 = 2 ^ i"
proof -
  have "2 \<le> j"
  proof (rule ccontr)
    assume "\<not> 2 \<le> j"
    then have "j = 0 \<or> j = 1" by auto
    then show False using assms by auto
  qed
  then obtain i where j: "j = Suc i" "1 \<le> i"
    by (cases j) auto
  define p :: int where "p = 2 ^ i"
  have "high - low + 1 = 2 * p"
    using assms j by (simp add: p_def)
  then have "(low + high) div 2 - low + 1 = p \<and> high - ((low + high) div 2 + 1) + 1 = p"
    by presburger
  then show ?thesis
    using j unfolding p_def by blast
qed

lemma probe_comparisons:
  fixes arr :: "'a::linorder list"
  assumes "low \<le> high" "- int (length arr) \<le> low" "high < int (length arr)"
    and "1 \<le> k" "high - low + 1 \<le> 2 ^ k"
  shows "\<exists>r c rd. find_min_max_probe k arr low high = (Inr r, c, rd)
           \<and> 3 * (high - low + 1) - 4 \<le> 2 * int c
           \<and> int c \<le> 2 * (high - low + 1) - 2
           \<and> (low < high \<longrightarrow> 3 * int c \<le> 5 * (high - low + 1) - 6)
           \<and> (\<forall>j. 1 \<le> j \<and> high - low + 1 = 2 ^ j \<longrightarrow> 2 * int c = 3 * (high - low + 1) - 4)"
  using assms
proof (induction k arbitrary: low high)
  case 0
  then show ?case by simp
next
  case (Suc k)
  have g: "\<exists>x. getitem arr i = Inr x" if "low \<le> i" "i \<le> high" for i
    using getitem_in_range[of arr i] that Suc.prems by auto
  show ?case
  proof (cases "low = high")
    case True
    obtain x where x: "getitem arr low = Inr x"
      using g[of low] True by auto
    have res: "find_min_max_probe (Suc k) arr low high = (Inr (x, x), 0, [low, low])"
      using True x by simp
    have pw: False if "1 \<le> j" "high - low + 1 = 2 ^ j" for j :: nat
    proof -
      have "(2::int) ^ 1 \<le> 2 ^ j"
        using that(1) by (intro power_increasing) auto
      then show False using that(2) True by simp
    qed
    have "3 * (high - low + 1) - 4 \<le> 2 * int 0" "int 0 \<le> 2 * (high - low + 1) - 2"
      "low < high \<longrightarrow> 3 * int 0 \<le> 5 * (high - low + 1) - 6"
      using True by simp_all
    moreover have "\<forall>j. 1 \<le> j \<and> high - low + 1 = 2 ^ j \<longrightarrow> 2 * int 0 = 3 * (high - low + 1) - 4"
      using pw by blast
    ultimately show ?thesis
      using res by blast
  next
    case ne: False
    show ?thesis
    proof (cases "high = low + 1")
      case True
      obtain a b where ab: "getitem arr low = Inr a" "getitem arr high = Inr b"
        using g[of low] g[of high] Suc.prems(1) by auto
      have "find_min_max_probe (Suc k) arr low high = (Inr (a, b), 1, [low, high, low, high])
          \<or> find_min_max_probe (Suc k) arr low high = (Inr (b, a), 1, [low, high, high, low])"
        using ne True ab by simp
      then obtain r rd where res: "find_min_max_probe (Suc k) arr low high = (Inr r, 1, rd)"
        by blast
      have "3 * (high - low + 1) - 4 \<le> 2 * int 1" "int 1 \<le> 2 * (high - low + 1) - 2"
        "low < high \<longrightarrow> 3 * int 1 \<le> 5 * (high - low + 1) - 6"
        "\<forall>j. 1 \<le> j \<and> high - low + 1 = 2 ^ j \<longrightarrow> 2 * int 1 = 3 * (high - low + 1) - 4"
        using True by simp_all
      with res show ?thesis
        by blast
    next
      case False
      define m where "m = (low + high) div 2"
      have lt: "low + 1 < high" using ne False Suc.prems by linarith
      have mb: "low < m" "m < high"
        using lt unfolding m_def by presburger+
      have mf: "m - low + 1 \<le> 2 ^ k" "high - (m + 1) + 1 \<le> 2 ^ k" "1 \<le> k"
        using mid_fuel[OF lt Suc.prems(5)] unfolding m_def by blast+
      have Lp: "low \<le> m" "- int (length arr) \<le> low" "m < int (length arr)"
          "1 \<le> k" "m - low + 1 \<le> 2 ^ k"
        using Suc.prems(2,3) mb mf by simp_all
      have Rp: "m + 1 \<le> high" "- int (length arr) \<le> m + 1" "high < int (length arr)"
          "1 \<le> k" "high - (m + 1) + 1 \<le> 2 ^ k"
        using Suc.prems(2,3) mb mf by simp_all
      obtain r1 c1 rd1 where L: "find_min_max_probe k arr low m = (Inr r1, c1, rd1)"
        and L1: "3 * (m - low + 1) - 4 \<le> 2 * int c1"
        and L2: "int c1 \<le> 2 * (m - low + 1) - 2"
        and L3: "low < m \<longrightarrow> 3 * int c1 \<le> 5 * (m - low + 1) - 6"
        and L4: "\<forall>j. 1 \<le> j \<and> m - low + 1 = 2 ^ j \<longrightarrow> 2 * int c1 = 3 * (m - low + 1) - 4"
        using Suc.IH[OF Lp] by blast
      obtain r2 c2 rd2 where R: "find_min_max_probe k arr (m + 1) high = (Inr r2, c2, rd2)"
        and R1: "3 * (high - (m + 1) + 1) - 4 \<le> 2 * int c2"
        and R2: "int c2 \<le> 2 * (high - (m + 1) + 1) - 2"
        and R3: "m + 1 < high \<longrightarrow> 3 * int c2 \<le> 5 * (high - (m + 1) + 1) - 6"
        and R4: "\<forall>j. 1 \<le> j \<and> high - (m + 1) + 1 = 2 ^ j \<longrightarrow> 2 * int c2 = 3 * (high - (m + 1) + 1) - 4"
        using Suc.IH[OF Rp] by blast
      obtain lmin lmax rmin rmax where r: "r1 = (lmin, lmax)" "r2 = (rmin, rmax)"
        by (cases r1, cases r2) auto
      have res: "find_min_max_probe (Suc k) arr low high =
          (Inr (py_min lmin rmin, py_max lmax rmax), c1 + c2 + 2, rd1 @ rd2)"
        using ne False L R r by (simp add: Let_def m_def)
      have ci: "int (c1 + c2 + 2) = int c1 + int c2 + 2"
        by simp
      have b1: "3 * (high - low + 1) - 4 \<le> 2 * int (c1 + c2 + 2)"
        unfolding ci using L1 R1 by simp
      have b2: "int (c1 + c2 + 2) \<le> 2 * (high - low + 1) - 2"
        unfolding ci using L2 R2 by simp
      have b3: "3 * int (c1 + c2 + 2) \<le> 5 * (high - low + 1) - 6"
        unfolding ci
      proof (cases "m + 1 < high")
        case True
        then show "3 * (int c1 + int c2 + 2) \<le> 5 * (high - low + 1) - 6"
          using L3 R3 mb by simp
      next
        case False
        then have hm: "high = m + 1" using mb by simp
        then have ml: "m = low + 1"
          using lt unfolding m_def by presburger
        have "3 * int c1 \<le> 4"
          using L3 mb(1) unfolding ml by simp
        moreover have "int c2 \<le> 0"
          using R2 unfolding hm by simp
        ultimately show "3 * (int c1 + int c2 + 2) \<le> 5 * (high - low + 1) - 6"
          unfolding hm ml by simp
      qed
      have b4: "2 * int (c1 + c2 + 2) = 3 * (high - low + 1) - 4"
        if "1 \<le> j" and pw: "high - low + 1 = 2 ^ j" for j
      proof -
        obtain i where "1 \<le> i" "m - low + 1 = 2 ^ i" "high - (m + 1) + 1 = 2 ^ i"
          using half_of_power[OF pw lt] unfolding m_def by blast
        then have "2 * int c1 = 3 * (m - low + 1) - 4" "2 * int c2 = 3 * (high - (m + 1) + 1) - 4"
          using L4 R4 by blast+
        then show ?thesis unfolding ci by simp
      qed
      show ?thesis
        unfolding res using b1 b2 b3 b4 by blast
    qed
  qed
qed

section \<open>The result on a valid range\<close>

text \<open>
  C1. For a non-empty sequence and a range \<open>0 \<le> low \<le> high \<le> len(arr) - 1\<close>, a call
  that is allowed the nesting the range needs returns the pair of the least and the
  greatest element of \<open>arr[low..high]\<close>; both are elements of that sub-range, the first
  is at most the second, and they are equal when the range has one element.
\<close>

theorem find_min_max_correct:
  fixes arr :: "'a::linorder list"
  assumes "0 \<le> low" "low \<le> high" "high \<le> int (length arr) - 1"
    and "1 \<le> depth" "high - low + 1 \<le> 2 ^ depth"
  shows "\<exists>mn mx. find_min_max depth arr low high = Inr (mn, mx)
           \<and> mn = Min (set (slice arr low high)) \<and> mx = Max (set (slice arr low high))
           \<and> mn \<in> set (slice arr low high) \<and> mx \<in> set (slice arr low high)
           \<and> mn \<le> mx \<and> (low = high \<longrightarrow> mn = mx)"
proof -
  let ?S = "set (slice arr low high)"
  have hi: "high < int (length arr)" using assms by simp
  have r: "find_min_max depth arr low high = Inr (Min ?S, Max ?S)"
    using find_min_max_extrema[of low high arr depth] assms
    by (simp add: image_getitem_slice[OF assms(1) hi])
  have ne: "?S \<noteq> {}" "finite ?S"
    using assms by (auto simp: slice_def)
  have one: "Min ?S = Max ?S" if "low = high"
  proof -
    have "?S = (\<lambda>i. arr ! nat i) ` {low..high}"
      by (rule set_slice[OF assms(1) hi])
    then have "?S = {arr ! nat low}"
      using that by simp
    then show ?thesis by simp
  qed
  show ?thesis
    using r ne one by (auto intro: Min_in Max_in)
qed

theorem find_min_max_correct_witness:
  "\<exists>mn mx. find_min_max 4 [23, 1, 45, 12, 7, 89, 34, 2, 56, 78, 10, 5 :: int] 0 11 = Inr (mn, mx)
     \<and> mn = 1 \<and> mx = 89"
  using find_min_max_correct[of 0 11 "[23, 1, 45, 12, 7, 89, 34, 2, 56, 78, 10, 5 :: int]" 4]
  by (simp add: slice_def)

section \<open>Ranges outside the contract\<close>

text \<open>
  C2, as the source behaves. The function validates nothing and never raises
  \<open>InvalidRangeError\<close>. With \<open>low > high\<close> no call reaches a base case: the run ends
  in \<open>RecursionError\<close> whatever the recursion limit, so no pair is returned. With
  \<open>low \<le> high\<close> and the nesting the range needs, the call returns a pair exactly when
  \<open>-len(arr) \<le> low\<close> and \<open>high \<le> len(arr) - 1\<close> (negative indices count from the end
  of the list) and raises \<open>IndexError\<close> otherwise.
\<close>

theorem find_min_max_invalid_range:
  fixes arr :: "'a::linorder list"
  shows "find_min_max depth arr low high \<noteq> Inl InvalidRangeError
       \<and> (high < low \<longrightarrow> find_min_max depth arr low high = Inl RecursionError)
       \<and> (low \<le> high \<and> 1 \<le> depth \<and> high - low + 1 \<le> 2 ^ depth \<longrightarrow>
            (if - int (length arr) \<le> low \<and> high < int (length arr)
             then \<exists>r. find_min_max depth arr low high = Inr r
             else find_min_max depth arr low high = Inl IndexError))"
proof (intro conjI impI)
  show "find_min_max depth arr low high \<noteq> Inl InvalidRangeError"
    using find_min_max_errors[of depth arr low high InvalidRangeError] by auto
  show "find_min_max depth arr low high = Inl RecursionError" if "high < low"
    using that by (rule find_min_max_inverted)
  show "if - int (length arr) \<le> low \<and> high < int (length arr)
        then \<exists>r. find_min_max depth arr low high = Inr r
        else find_min_max depth arr low high = Inl IndexError"
    if "low \<le> high \<and> 1 \<le> depth \<and> high - low + 1 \<le> 2 ^ depth"
  proof (cases "- int (length arr) \<le> low \<and> high < int (length arr)")
    case True
    then show ?thesis
      using that find_min_max_returns[of low high arr depth] by simp
  next
    case False
    then have "low < - int (length arr) \<or> int (length arr) \<le> high"
      by linarith
    then show ?thesis
      using that False find_min_max_out_of_bounds[of low high arr depth] by simp
  qed
qed

theorem find_min_max_invalid_range_witness:
  "find_min_max 1000 [23, 1, 45, 12, 7, 89, 34, 2, 56, 78, 10, 5 :: int] 5 2 = Inl RecursionError
   \<and> find_min_max 2 [1, 2, 3 :: int] 0 3 = Inl IndexError
   \<and> (\<exists>r. find_min_max 1 [1, 2, 3 :: int] (- 1) (- 1) = Inr r)"
  using find_min_max_invalid_range[of 1000 "[23, 1, 45, 12, 7, 89, 34, 2, 56, 78, 10, 5 :: int]" 5 2]
    find_min_max_invalid_range[of 2 "[1, 2, 3 :: int]" 0 3]
    find_min_max_invalid_range[of 1 "[1, 2, 3 :: int]" "- 1" "- 1"]
  by simp

theorem find_min_max_invalid_range_counterexample:
  "find_min_max 1000 [23, 1, 45, 12, 7, 89, 34, 2, 56, 78, 10, 5 :: int] 5 2 = Inl RecursionError
   \<and> RecursionError \<noteq> InvalidRangeError
   \<and> find_min_max 1000 [1, 2, 3 :: int] (- 1) (- 1) = Inr (3, 3)"
proof -
  have "find_min_max 1000 [1, 2, 3 :: int] (- 1) (- 1) = Inr (3, 3)"
    by code_simp
  then show ?thesis
    by (simp add: find_min_max_inverted)
qed

text \<open>
  C3, as the source behaves. On the empty sequence no call returns a pair and none
  raises \<open>EmptySequenceError\<close>: with \<open>low \<le> high\<close> and the nesting the range needs
  the subscript raises \<open>IndexError\<close> (with \<open>low > high\<close>, or a smaller limit, the run
  ends in \<open>RecursionError\<close>).
\<close>

theorem find_min_max_empty:
  "find_min_max depth ([] :: 'a::linorder list) low high \<noteq> Inl EmptySequenceError
   \<and> (\<forall>r. find_min_max depth ([] :: 'a list) low high \<noteq> Inr r)
   \<and> (low \<le> high \<and> 1 \<le> depth \<and> high - low + 1 \<le> 2 ^ depth \<longrightarrow>
        find_min_max depth ([] :: 'a list) low high = Inl IndexError)
   \<and> (high < low \<or> depth = 0 \<or> 2 ^ depth < high - low + 1 \<longrightarrow>
        find_min_max depth ([] :: 'a list) low high = Inl RecursionError)"
proof (intro conjI allI impI)
  show "find_min_max depth ([] :: 'a list) low high = Inl RecursionError"
    if h: "high < low \<or> depth = 0 \<or> 2 ^ depth < high - low + 1"
  proof (cases "high < low")
    case True
    then show ?thesis by (rule find_min_max_inverted)
  next
    case False
    then have le: "low \<le> high" by simp
    show ?thesis
    proof (cases "depth = 0")
      case True
      then show ?thesis by simp
    next
      case False
      with h le have "2 ^ depth < high - low + 1" by simp
      with le show ?thesis by (rule find_min_max_shallow)
    qed
  qed
  show "find_min_max depth ([] :: 'a list) low high \<noteq> Inl EmptySequenceError"
    using find_min_max_errors[of depth "[] :: 'a list" low high EmptySequenceError] by auto
  show "find_min_max depth ([] :: 'a list) low high \<noteq> Inr r" for r
    using find_min_max_Inr_range[of depth "[] :: 'a list" low high r] by auto
  show "find_min_max depth ([] :: 'a list) low high = Inl IndexError"
    if "low \<le> high \<and> 1 \<le> depth \<and> high - low + 1 \<le> 2 ^ depth"
  proof -
    have "low < 0 \<or> 0 \<le> high" using that by linarith
    then show ?thesis
      using that find_min_max_out_of_bounds[of low high "[] :: 'a list" depth] by simp
  qed
qed

theorem find_min_max_empty_witness:
  "find_min_max 3 ([] :: int list) 0 5 = Inl IndexError
   \<and> find_min_max 2 ([] :: int list) 0 5 = Inl RecursionError"
  using find_min_max_empty[of 3 0 5, where ?'a = int] find_min_max_empty[of 2 0 5, where ?'a = int]
  by simp

theorem find_min_max_empty_counterexample:
  "find_min_max 1000 ([] :: int list) 0 0 = Inl IndexError \<and> IndexError \<noteq> EmptySequenceError"
proof -
  have "find_min_max 1000 ([] :: int list) 0 0 = Inl IndexError"
    by code_simp
  then show ?thesis by simp
qed

section \<open>The number of comparisons\<close>

text \<open>
  C4, as the source behaves. On a valid range of \<open>n\<close> elements the run makes \<open>c\<close>
  comparisons of elements with \<open>3n/2 - 2 \<le> c \<le> 2n - 2\<close>; for \<open>n \<ge> 2\<close> moreover
  \<open>c \<le> 5n/3 - 2\<close>, hence \<open>c < 2n - 2\<close>; and \<open>c\<close> is exactly \<open>3n/2 - 2\<close> when \<open>n\<close> is a
  power of two (\<open>n = 2^j\<close>, \<open>j \<ge> 1\<close>). For other even \<open>n\<close> the count can be larger:
  six elements take eight comparisons.
\<close>

theorem find_min_max_comparisons:
  fixes arr :: "'a::linorder list"
  assumes "0 \<le> low" "low \<le> high" "high \<le> int (length arr) - 1"
    and "1 \<le> depth" "high - low + 1 \<le> 2 ^ depth"
  shows "\<exists>r c reads. find_min_max_probe depth arr low high = (Inr r, c, reads)
           \<and> find_min_max depth arr low high = Inr r
           \<and> 3 * (high - low + 1) - 4 \<le> 2 * int c
           \<and> int c \<le> 2 * (high - low + 1) - 2
           \<and> (2 \<le> high - low + 1 \<longrightarrow>
                 3 * int c \<le> 5 * (high - low + 1) - 6 \<and> int c < 2 * (high - low + 1) - 2)
           \<and> (\<forall>j. 1 \<le> j \<and> high - low + 1 = 2 ^ j \<longrightarrow> 2 * int c = 3 * (high - low + 1) - 4)"
proof -
  have "- int (length arr) \<le> low" "high < int (length arr)"
    using assms by simp_all
  from probe_comparisons[OF assms(2) this assms(4,5)]
  obtain r c rd where p: "find_min_max_probe depth arr low high = (Inr r, c, rd)"
    and c1: "3 * (high - low + 1) - 4 \<le> 2 * int c"
    and c2: "int c \<le> 2 * (high - low + 1) - 2"
    and c3: "low < high \<longrightarrow> 3 * int c \<le> 5 * (high - low + 1) - 6"
    and c4: "\<forall>j. 1 \<le> j \<and> high - low + 1 = 2 ^ j \<longrightarrow> 2 * int c = 3 * (high - low + 1) - 4"
    by blast
  have r: "find_min_max depth arr low high = Inr r"
    using probe_result[of depth arr low high] p by simp
  have c5: "3 * int c \<le> 5 * (high - low + 1) - 6 \<and> int c < 2 * (high - low + 1) - 2"
    if "2 \<le> high - low + 1"
  proof -
    have "3 * int c \<le> 5 * (high - low + 1) - 6"
      using c3 that by simp
    then show ?thesis using that by simp
  qed
  show ?thesis
    using p r c1 c2 c5 c4 by blast
qed

theorem find_min_max_comparisons_witness:
  "\<exists>r reads. find_min_max_probe 3 [5, 3, 8, 1, 9, 2, 7, 4 :: int] 0 7 = (Inr r, 10, reads)"
proof -
  let ?arr = "[5, 3, 8, 1, 9, 2, 7, 4 :: int]"
  have h: "(0::int) \<le> 0" "(0::int) \<le> 7" "7 \<le> int (length ?arr) - 1"
      "1 \<le> (3::nat)" "(7::int) - 0 + 1 \<le> 2 ^ 3"
    by simp_all
  from find_min_max_comparisons[OF h]
  obtain r c reads where p: "find_min_max_probe 3 ?arr 0 7 = (Inr r, c, reads)"
    and pw: "\<forall>j. 1 \<le> j \<and> (7::int) - 0 + 1 = 2 ^ j \<longrightarrow> 2 * int c = 3 * (7 - 0 + 1) - 4"
    by blast
  from pw[rule_format, of 3] have "c = 10"
    by simp
  with p show ?thesis
    by blast
qed

theorem find_min_max_comparisons_counterexample:
  "fst (snd (find_min_max_probe 3 [3, 1, 4, 1, 5, 9 :: int] 0 5)) = 8
   \<and> (8::nat) \<noteq> 3 * 6 div 2 - 2
   \<and> fst (snd (find_min_max_probe 1 [7 :: int] 0 0)) = 0
   \<and> \<not> (0::nat) < 2 * 1 - 2"
  by code_simp

section \<open>The three cases of the function\<close>

text \<open>
  C5. With \<open>high > low + 1\<close> a call splits the range at \<open>mid = (low + high) // 2\<close>
  (floor division) into \<open>[low, mid]\<close> and \<open>[mid + 1, high]\<close>, calls itself on the left
  part and then on the right part, one level deeper, and returns
  \<open>(min(left_min, right_min), max(left_max, right_max))\<close> of the two pairs; an
  exception of either call leaves it at once. On a valid range, with the nesting the
  range needs, the left call returns the least and the greatest element of
  \<open>arr[low..mid]\<close>, the right call those of \<open>arr[mid+1..high]\<close>, and the call returns
  their combination.
\<close>

theorem find_min_max_recursive_case:
  fixes arr :: "'a::linorder list"
  assumes "low + 1 < high"
  shows "find_min_max (Suc k) arr low high =
           (case find_min_max k arr low ((low + high) div 2) of
              Inl e \<Rightarrow> Inl e
            | Inr (left_min, left_max) \<Rightarrow>
               (case find_min_max k arr ((low + high) div 2 + 1) high of
                  Inl e \<Rightarrow> Inl e
                | Inr (right_min, right_max) \<Rightarrow>
                    Inr (min left_min right_min, max left_max right_max)))
       \<and> (0 \<le> low \<and> high \<le> int (length arr) - 1 \<and> high - low + 1 \<le> 2 ^ Suc k \<longrightarrow>
            find_min_max k arr low ((low + high) div 2) =
              Inr (Min (set (slice arr low ((low + high) div 2))),
                   Max (set (slice arr low ((low + high) div 2))))
          \<and> find_min_max k arr ((low + high) div 2 + 1) high =
              Inr (Min (set (slice arr ((low + high) div 2 + 1) high)),
                   Max (set (slice arr ((low + high) div 2 + 1) high)))
          \<and> find_min_max (Suc k) arr low high =
              Inr (min (Min (set (slice arr low ((low + high) div 2))))
                       (Min (set (slice arr ((low + high) div 2 + 1) high))),
                   max (Max (set (slice arr low ((low + high) div 2))))
                       (Max (set (slice arr ((low + high) div 2 + 1) high)))))"
proof (intro conjI impI)
  define m where "m = (low + high) div 2"
  have ne: "low \<noteq> high" "high \<noteq> low + 1"
    using assms by simp_all
  show unfold: "find_min_max (Suc k) arr low high =
           (case find_min_max k arr low ((low + high) div 2) of
              Inl e \<Rightarrow> Inl e
            | Inr (left_min, left_max) \<Rightarrow>
               (case find_min_max k arr ((low + high) div 2 + 1) high of
                  Inl e \<Rightarrow> Inl e
                | Inr (right_min, right_max) \<Rightarrow>
                    Inr (min left_min right_min, max left_max right_max)))"
    using ne by (simp add: Let_def py_min_eq py_max_eq split: sum.splits prod.splits)
  assume v: "0 \<le> low \<and> high \<le> int (length arr) - 1 \<and> high - low + 1 \<le> 2 ^ Suc k"
  have mb: "low \<le> m" "m < high"
    using mid_bounds[OF assms] by (simp_all add: m_def)
  have mf: "m - low + 1 \<le> 2 ^ k" "high - (m + 1) + 1 \<le> 2 ^ k" "1 \<le> k"
    using mid_fuel[OF assms] v unfolding m_def by blast+
  have Lr: "low \<le> m" "- int (length arr) \<le> low" "m < int (length arr)"
    using v mb by simp_all
  have Rr: "m + 1 \<le> high" "- int (length arr) \<le> m + 1" "high < int (length arr)"
    using v mb by simp_all
  have Ls: "(\<lambda>i. projr (getitem arr i)) ` {low..m} = set (slice arr low m)"
    using v Lr by (intro image_getitem_slice) simp_all
  have Rs: "(\<lambda>i. projr (getitem arr i)) ` {m + 1..high} = set (slice arr (m + 1) high)"
    using v mb Rr by (intro image_getitem_slice) simp_all
  have L: "find_min_max k arr low m = Inr (Min (set (slice arr low m)), Max (set (slice arr low m)))"
    using find_min_max_extrema[OF Lr mf(3) mf(1)] unfolding Ls .
  have R: "find_min_max k arr (m + 1) high =
      Inr (Min (set (slice arr (m + 1) high)), Max (set (slice arr (m + 1) high)))"
    using find_min_max_extrema[OF Rr mf(3) mf(2)] unfolding Rs .
  show "find_min_max k arr low ((low + high) div 2) =
      Inr (Min (set (slice arr low ((low + high) div 2))),
           Max (set (slice arr low ((low + high) div 2))))"
    using L unfolding m_def .
  show "find_min_max k arr ((low + high) div 2 + 1) high =
      Inr (Min (set (slice arr ((low + high) div 2 + 1) high)),
           Max (set (slice arr ((low + high) div 2 + 1) high)))"
    using R unfolding m_def .
  show "find_min_max (Suc k) arr low high =
      Inr (min (Min (set (slice arr low ((low + high) div 2))))
               (Min (set (slice arr ((low + high) div 2 + 1) high))),
           max (Max (set (slice arr low ((low + high) div 2))))
               (Max (set (slice arr ((low + high) div 2 + 1) high))))"
    unfolding unfold using L R unfolding m_def by simp
qed

theorem find_min_max_recursive_case_witness:
  "find_min_max 3 [23, 1, 45, 12, 7, 89, 34, 2, 56, 78, 10, 5 :: int] 0 5 = Inr (1, 89)
   \<and> find_min_max 3 [23, 1, 45, 12, 7, 89, 34, 2, 56, 78, 10, 5 :: int] 6 11 = Inr (2, 78)
   \<and> find_min_max (Suc 3) [23, 1, 45, 12, 7, 89, 34, 2, 56, 78, 10, 5 :: int] 0 11 = Inr (1, 89)"
proof -
  let ?arr = "[23, 1, 45, 12, 7, 89, 34, 2, 56, 78, 10, 5 :: int]"
  have lt: "(0::int) + 1 < 11" by simp
  have v: "(0::int) \<le> 0 \<and> 11 \<le> int (length ?arr) - 1 \<and> (11::int) - 0 + 1 \<le> 2 ^ Suc 3"
    by simp
  from find_min_max_recursive_case[OF lt, of 3 ?arr, THEN conjunct2, rule_format, OF v]
  show ?thesis
    by (simp add: slice_def)
qed

text \<open>
  C6. With \<open>low = high\<close> the call returns \<open>(arr[low], arr[low])\<close>, whenever \<open>arr[low]\<close>
  exists; in particular \<open>find_min_max([x], 0, 0) = (x, x)\<close>.
\<close>

theorem find_min_max_single:
  fixes arr :: "'a::linorder list"
  assumes "1 \<le> depth"
  shows "(0 \<le> low \<and> low \<le> int (length arr) - 1 \<longrightarrow>
            find_min_max depth arr low low = Inr (arr ! nat low, arr ! nat low))
       \<and> (\<forall>v. getitem arr low = Inr v \<longrightarrow> find_min_max depth arr low low = Inr (v, v))
       \<and> find_min_max depth [x] 0 0 = Inr (x, x)"
proof -
  obtain k where k: "depth = Suc k"
    using assms by (cases depth) auto
  show ?thesis
    unfolding k by (simp add: getitem_def)
qed

theorem find_min_max_single_witness:
  "find_min_max 1 [23, 1, 45 :: int] 2 2 = Inr (45, 45) \<and> find_min_max 1 [7 :: int] 0 0 = Inr (7, 7)"
  using find_min_max_single[of 1 2 "[23, 1, 45 :: int]" 7]
  by simp

text \<open>
  C7. On a two-element range (\<open>high = low + 1\<close>) the call returns the smaller and the
  larger of \<open>arr[low]\<close> and \<open>arr[high]\<close>, in whichever order they stand, after exactly one
  comparison; \<open>find_min_max([5, 2], 0, 1)\<close> and \<open>find_min_max([2, 5], 0, 1)\<close> are both
  \<open>(2, 5)\<close>.
\<close>

theorem find_min_max_pair:
  fixes arr :: "'a::linorder list"
  assumes "1 \<le> depth"
  shows "(0 \<le> low \<and> high = low + 1 \<and> high \<le> int (length arr) - 1 \<longrightarrow>
            find_min_max depth arr low high =
              Inr (min (arr ! nat low) (arr ! nat high), max (arr ! nat low) (arr ! nat high))
          \<and> fst (snd (find_min_max_probe depth arr low high)) = 1)
       \<and> find_min_max depth [5, 2 :: int] 0 1 = Inr (2, 5)
       \<and> find_min_max depth [2, 5 :: int] 0 1 = Inr (2, 5)"
proof -
  obtain k where k: "depth = Suc k"
    using assms by (cases depth) auto
  show ?thesis
    unfolding k by (simp add: getitem_def min_def max_def)
qed

theorem find_min_max_pair_witness:
  "find_min_max 1 [23, 1, 45 :: int] 0 1 = Inr (1, 23)
   \<and> fst (snd (find_min_max_probe 1 [23, 1, 45 :: int] 0 1)) = 1"
  using find_min_max_pair[of 1 0 1 "[23, 1, 45 :: int]"]
  by simp

section \<open>Determinism\<close>

text \<open>
  C8. The function reads nothing but its arguments, so the model has no state argument;
  the one quantity of the environment that a call can observe is the recursion budget.
  On a valid range any two calls with the same arguments return the same result,
  whatever the (sufficient) budgets they run under.
\<close>

theorem find_min_max_deterministic:
  fixes arr :: "'a::linorder list"
  assumes "0 \<le> low" "low \<le> high" "high \<le> int (length arr) - 1"
    and "1 \<le> d1" "high - low + 1 \<le> 2 ^ d1"
    and "1 \<le> d2" "high - low + 1 \<le> 2 ^ d2"
  shows "find_min_max d1 arr low high = find_min_max d2 arr low high"
proof -
  have r: "- int (length arr) \<le> low" "high < int (length arr)"
    using assms by simp_all
  show ?thesis
    using find_min_max_extrema[OF assms(2) r assms(4,5)]
      find_min_max_extrema[OF assms(2) r assms(6,7)]
    by simp
qed

theorem find_min_max_deterministic_witness:
  "find_min_max 4 [23, 1, 45, 12, 7, 89, 34, 2, 56, 78, 10, 5 :: int] 0 11 =
   find_min_max 1000 [23, 1, 45, 12, 7, 89, 34, 2, 56, 78, 10, 5 :: int] 0 11"
  using find_min_max_deterministic[of 0 11 "[23, 1, 45, 12, 7, 89, 34, 2, 56, 78, 10, 5 :: int]" 4 1000]
  by simp

section \<open>Termination and recursion depth\<close>

text \<open>
  C9. On a valid range of \<open>n\<close> elements the call returns as soon as the recursion budget
  \<open>depth \<ge> 1\<close> satisfies \<open>n \<le> 2^depth\<close>, and it fails with \<open>RecursionError\<close> when
  \<open>2^depth < n\<close>: the nesting of calls is \<open>\<lceil>log\<^sub>2 n\<rceil>\<close> (one for \<open>n = 1\<close>), logarithmic
  in \<open>n\<close>. Each recursive call is on a non-empty, strictly smaller range.
\<close>

theorem find_min_max_terminates:
  fixes arr :: "'a::linorder list"
  assumes "0 \<le> low" "low \<le> high" "high \<le> int (length arr) - 1"
  shows "(1 \<le> depth \<and> high - low + 1 \<le> 2 ^ depth \<longrightarrow>
            (\<exists>r. find_min_max depth arr low high = Inr r))
       \<and> (2 ^ depth < high - low + 1 \<longrightarrow> find_min_max depth arr low high = Inl RecursionError)
       \<and> (low + 1 < high \<longrightarrow>
            1 \<le> (low + high) div 2 - low + 1 \<and> (low + high) div 2 - low + 1 < high - low + 1
          \<and> 1 \<le> high - ((low + high) div 2 + 1) + 1
          \<and> high - ((low + high) div 2 + 1) + 1 < high - low + 1)"
proof (intro conjI impI)
  have r: "- int (length arr) \<le> low" "high < int (length arr)"
    using assms by simp_all
  show "\<exists>r. find_min_max depth arr low high = Inr r"
    if "1 \<le> depth \<and> high - low + 1 \<le> 2 ^ depth"
    using that find_min_max_returns[OF assms(2) r, of depth] by blast
  show "find_min_max depth arr low high = Inl RecursionError" if "2 ^ depth < high - low + 1"
    using assms(2) that by (rule find_min_max_shallow)
next
  assume lt: "low + 1 < high"
  note mb = mid_bounds[OF lt]
  show "1 \<le> (low + high) div 2 - low + 1" "(low + high) div 2 - low + 1 < high - low + 1"
    "1 \<le> high - ((low + high) div 2 + 1) + 1" "high - ((low + high) div 2 + 1) + 1 < high - low + 1"
    using mb by simp_all
qed

theorem find_min_max_terminates_witness:
  "(\<exists>r. find_min_max 4 [23, 1, 45, 12, 7, 89, 34, 2, 56, 78, 10, 5 :: int] 0 11 = Inr r)
   \<and> find_min_max 3 [23, 1, 45, 12, 7, 89, 34, 2, 56, 78, 10, 5 :: int] 0 11 = Inl RecursionError"
  using find_min_max_terminates[of 0 11 "[23, 1, 45, 12, 7, 89, 34, 2, 56, 78, 10, 5 :: int]" 4]
    find_min_max_terminates[of 0 11 "[23, 1, 45, 12, 7, 89, 34, 2, 56, 78, 10, 5 :: int]" 3]
  by simp

section \<open>Subscripts stay in the range\<close>

text \<open>
  C10. On a range \<open>0 \<le> low \<le> high \<le> len(arr) - 1\<close> every index at which the run
  subscripts \<open>arr\<close> lies in \<open>[low, high]\<close>, hence within the bounds of the list, where the
  subscript succeeds; the call never raises \<open>IndexError\<close>; and both recursive calls
  receive ranges that satisfy the same precondition.
\<close>

theorem find_min_max_in_bounds:
  fixes arr :: "'a::linorder list"
  assumes "0 \<le> low" "low \<le> high" "high \<le> int (length arr) - 1"
  shows "fst (find_min_max_probe depth arr low high) = find_min_max depth arr low high
       \<and> set (snd (snd (find_min_max_probe depth arr low high))) \<subseteq> {low..high}
       \<and> (\<forall>i \<in> set (snd (snd (find_min_max_probe depth arr low high))).
             0 \<le> i \<and> i \<le> int (length arr) - 1 \<and> getitem arr i = Inr (arr ! nat i))
       \<and> find_min_max depth arr low high \<noteq> Inl IndexError
       \<and> (low + 1 < high \<longrightarrow>
             (0 \<le> low \<and> low \<le> (low + high) div 2 \<and> (low + high) div 2 \<le> int (length arr) - 1)
           \<and> (0 \<le> (low + high) div 2 + 1 \<and> (low + high) div 2 + 1 \<le> high
                \<and> high \<le> int (length arr) - 1))"
proof (intro conjI ballI impI)
  show "fst (find_min_max_probe depth arr low high) = find_min_max depth arr low high"
    by (rule probe_result)
  show sub: "set (snd (snd (find_min_max_probe depth arr low high))) \<subseteq> {low..high}"
    using assms(2) by (rule probe_reads)
  show "find_min_max depth arr low high \<noteq> Inl IndexError"
    using assms by (intro find_min_max_no_index_error) simp_all
  fix i
  assume "i \<in> set (snd (snd (find_min_max_probe depth arr low high)))"
  then have i: "low \<le> i" "i \<le> high"
    using sub by auto
  then show "0 \<le> i" "i \<le> int (length arr) - 1"
    using assms by simp_all
  then show "getitem arr i = Inr (arr ! nat i)"
    by (simp add: getitem_def)
next
  assume lt: "low + 1 < high"
  note mb = mid_bounds[OF lt]
  show "0 \<le> low" "low \<le> (low + high) div 2" "(low + high) div 2 \<le> int (length arr) - 1"
    "0 \<le> (low + high) div 2 + 1" "(low + high) div 2 + 1 \<le> high" "high \<le> int (length arr) - 1"
    using mb assms by simp_all
qed

theorem find_min_max_in_bounds_witness:
  "set (snd (snd (find_min_max_probe 4 [23, 1, 45, 12, 7, 89, 34, 2, 56, 78, 10, 5 :: int] 2 5))) \<subseteq> {2..5}
   \<and> find_min_max 4 [23, 1, 45, 12, 7, 89, 34, 2, 56, 78, 10, 5 :: int] 2 5 \<noteq> Inl IndexError"
  using find_min_max_in_bounds[of 2 5 "[23, 1, 45, 12, 7, 89, 34, 2, 56, 78, 10, 5 :: int]" 4]
  by simp

end
